theory Spec2Isabelle
  imports
    Main
    "HOL-Library.Char_ord"
    "HOL-Library.List_Lexorder"
    "HOL-Library.Product_Lexorder"
    "HOL-Library.Sublist"
    "HOL-Library.Multiset"
begin

section \<open>Go strings\<close>

text \<open>
  A Go \<^verbatim>\<open>string\<close> is a sequence of bytes; it is modelled as a \<^typ>\<open>string\<close>
  (a list of 8-bit characters). The order on strings used by Go's \<^verbatim>\<open><\<close> and
  \<^verbatim>\<open>></\<close> is the bytewise lexicographic one, which is the order the imported
  library theories put on \<^typ>\<open>char list\<close>.

  The functions of this section belong to Go's standard library \<^verbatim>\<open>strings\<close>, not
  to the repository; they are written out here as far as the repository depends on them.
\<close>

text \<open>
  \<^verbatim>\<open>strings.Split(s, sep)\<close> for a one-byte separator: cut at the first separator,
  keep the part before it, go on behind it; what is left at the end is the last part.
\<close>

function Split :: "string \<Rightarrow> char \<Rightarrow> string list" where
  "Split s sep =
     (if sep \<in> set s
      then takeWhile (\<lambda>c. c \<noteq> sep) s # Split (tl (dropWhile (\<lambda>c. c \<noteq> sep) s)) sep
      else [s])"
  by pat_completeness auto
termination
proof (relation "measure (\<lambda>(s, sep). length s)")
  show "wf (measure (\<lambda>(s, sep). length s))" by simp
next
  fix s :: string and sep :: char
  assume "sep \<in> set s"
  then have "dropWhile (\<lambda>c. c \<noteq> sep) s \<noteq> []" by simp
  then have "length (tl (dropWhile (\<lambda>c. c \<noteq> sep) s)) < length (dropWhile (\<lambda>c. c \<noteq> sep) s)"
    by (cases "dropWhile (\<lambda>c. c \<noteq> sep) s") simp_all
  also have "\<dots> \<le> length s" by (rule length_dropWhile_le)
  finally show "((tl (dropWhile (\<lambda>c. c \<noteq> sep) s), sep), (s, sep)) \<in> measure (\<lambda>(s, sep). length s)"
    by simp
qed

declare Split.simps [simp del]

text \<open>\<^verbatim>\<open>strings.Join(parts, sep)\<close> for a one-byte separator.\<close>

fun Join :: "string list \<Rightarrow> char \<Rightarrow> string" where
  "Join [] sep = []"
| "Join [p] sep = p"
| "Join (p # q # ps) sep = p @ sep # Join (q # ps) sep"

text \<open>
  White space as \<^verbatim>\<open>unicode.IsSpace\<close> has it. The six ASCII characters are tab, line
  feed, vertical tab, form feed, carriage return and space; the others are given by their
  UTF-8 encodings: U+0085, U+00A0, U+1680, U+2000 to U+200A, U+2028, U+2029, U+202F,
  U+205F and U+3000.
\<close>

definition asciiSpace :: "char \<Rightarrow> bool" where
  "asciiSpace c = (c \<in> set [CHR 0x09, CHR 0x0A, CHR 0x0B, CHR 0x0C, CHR 0x0D, CHR 0x20])"

definition unicodeSpaces :: "string list" where
  "unicodeSpaces =
     [[CHR 0xC2, CHR 0x85], [CHR 0xC2, CHR 0xA0], [CHR 0xE1, CHR 0x9A, CHR 0x80]] @
     map (\<lambda>b. [CHR 0xE2, CHR 0x80, b])
       [CHR 0x80, CHR 0x81, CHR 0x82, CHR 0x83, CHR 0x84, CHR 0x85, CHR 0x86, CHR 0x87,
        CHR 0x88, CHR 0x89, CHR 0x8A, CHR 0xA8, CHR 0xA9, CHR 0xAF] @
     [[CHR 0xE2, CHR 0x81, CHR 0x9F], [CHR 0xE3, CHR 0x80, CHR 0x80]]"

text \<open>
  The width in bytes of the white-space rune a string starts with (ends with), and 0 when
  it starts (ends) with none.
\<close>

definition firstSpaceWidth :: "string \<Rightarrow> nat" where
  "firstSpaceWidth s =
     (case s of
        [] \<Rightarrow> 0
      | c # _ \<Rightarrow>
          if asciiSpace c then 1
          else (case find (\<lambda>p. prefix p s) unicodeSpaces of None \<Rightarrow> 0 | Some p \<Rightarrow> length p))"

definition lastSpaceWidth :: "string \<Rightarrow> nat" where
  "lastSpaceWidth s =
     (if s = [] then 0
      else if asciiSpace (last s) then 1
      else (case find (\<lambda>p. suffix p s) unicodeSpaces of None \<Rightarrow> 0 | Some p \<Rightarrow> length p))"

function TrimLeft :: "string \<Rightarrow> string" where
  "TrimLeft s = (if firstSpaceWidth s = 0 then s else TrimLeft (drop (firstSpaceWidth s) s))"
  by pat_completeness auto
termination
  by (relation "measure length") (auto simp: firstSpaceWidth_def split: list.splits)

function TrimRight :: "string \<Rightarrow> string" where
  "TrimRight s =
     (if lastSpaceWidth s = 0 then s else TrimRight (take (length s - lastSpaceWidth s) s))"
  by pat_completeness auto
termination
  by (relation "measure length") (auto simp: lastSpaceWidth_def split: if_splits)

declare TrimLeft.simps [simp del] TrimRight.simps [simp del]

text \<open>\<^verbatim>\<open>strings.TrimSpace\<close>: leading white space goes first, then trailing.\<close>

definition TrimSpace :: "string \<Rightarrow> string" where
  "TrimSpace s = TrimRight (TrimLeft s)"

text \<open>
  \<^verbatim>\<open>strings.ToUpper\<close> and \<^verbatim>\<open>strings.ToLower\<close>. On a string of ASCII bytes only
  they change the letters a to z (A to Z) byte by byte. On any other string they map
  every rune through Unicode's case tables, which are not part of the repository: that
  mapping is the parameter \<open>uni\<close>.
\<close>

definition isASCII :: "string \<Rightarrow> bool" where
  "isASCII s = list_all (\<lambda>c. of_char c < (128::nat)) s"

definition upperByte :: "char \<Rightarrow> char" where
  "upperByte c =
     (if CHR ''a'' \<le> c \<and> c \<le> CHR ''z'' then char_of (of_char c - (32::nat)) else c)"

definition lowerByte :: "char \<Rightarrow> char" where
  "lowerByte c =
     (if CHR ''A'' \<le> c \<and> c \<le> CHR ''Z'' then char_of (of_char c + (32::nat)) else c)"

definition ToUpper :: "(string \<Rightarrow> string) \<Rightarrow> string \<Rightarrow> string" where
  "ToUpper uni s = (if isASCII s then map upperByte s else uni s)"

definition ToLower :: "(string \<Rightarrow> string) \<Rightarrow> string \<Rightarrow> string" where
  "ToLower uni s = (if isASCII s then map lowerByte s else uni s)"

text \<open>\<^verbatim>\<open>strings.Contains(s, substr)\<close>: \<open>substr\<close> occurs in \<open>s\<close> as a run of bytes.\<close>

definition Contains :: "string \<Rightarrow> string \<Rightarrow> bool" where
  "Contains s substr = sublist substr s"

section \<open>Topic codec (mqtt/handler.go)\<close>

datatype topic_error =
    InvalidTopicFormat string
  | NotPowerTopic string
  | InvalidTopicStructure string
  | EmptyDeviceOrOutlet string

definition ParseTopic :: "string \<Rightarrow> topic_error + string \<times> string" where
  "ParseTopic topic =
     (let parts = Split topic CHR ''/'' in
      if length parts < 4 then Inl (InvalidTopicFormat topic)
      else if parts ! 0 \<noteq> ''power'' then Inl (NotPowerTopic topic)
      else if parts ! 2 \<noteq> ''outlets'' then Inl (InvalidTopicStructure topic)
      else
        let device = parts ! 1; outlet = parts ! 3 in
        if device = [] \<or> outlet = [] then Inl (EmptyDeviceOrOutlet topic)
        else Inr (device, outlet))"

definition ParsePayload :: "string \<Rightarrow> string" where
  "ParsePayload payload =
     (let payload = TrimSpace payload in
      if payload = ''0'' then ''OFF''
      else if payload = ''1'' then ''ON''
      else payload)"

definition MakeCommandTopic :: "string \<Rightarrow> string \<Rightarrow> string" where
  "MakeCommandTopic device outlet = ''power/'' @ device @ ''/outlets/'' @ outlet @ ''/set''"

definition StatusToPayload :: "(string \<Rightarrow> string) \<Rightarrow> string \<Rightarrow> string" where
  "StatusToPayload uni status =
     (let status = ToUpper uni (TrimSpace status) in
      if status = ''OFF'' then ''0''
      else if status = ''ON'' then ''1''
      else status)"

section \<open>Device store (models/device.go)\<close>

text \<open>
  A \<^verbatim>\<open>time.Time\<close> is an instant; the model counts it as an integer. The zero value of
  the type is \<open>zeroTime\<close>. Every call of \<^verbatim>\<open>time.Now()\<close> is an argument of the function
  that makes it.
\<close>

type_synonym time = int

definition zeroTime :: time where
  "zeroTime = 0"

record DeviceOutlet =
  DeviceName :: string
  OutletNumber :: string
  Status :: string
  LastUpdate :: time

text \<open>
  The store is a Go map from keys to outlets. Each method holds the store's lock for its
  whole body, so a method is one step on the store. The map holds pointers, but \<open>Add\<close>
  stores the address of its own copy of the argument and the readers copy the outlet out,
  so no two entries and no caller share an outlet: the map is modelled by its values.
\<close>

record DeviceStore =
  devices :: "string \<rightharpoonup> DeviceOutlet"

definition NewDeviceStore :: DeviceStore where
  "NewDeviceStore = \<lparr>devices = Map.empty\<rparr>"

definition makeKey :: "string \<Rightarrow> string \<Rightarrow> string" where
  "makeKey deviceName outletNumber = deviceName @ '':'' @ outletNumber"

definition Add :: "DeviceStore \<Rightarrow> DeviceOutlet \<Rightarrow> time \<Rightarrow> DeviceStore" where
  "Add s device now =
     (let device = device\<lparr>LastUpdate := now\<rparr>;
          key = makeKey (DeviceName device) (OutletNumber device)
      in s\<lparr>devices := (devices s)(key \<mapsto> device)\<rparr>)"

definition zeroDeviceOutlet :: DeviceOutlet where
  "zeroDeviceOutlet =
     \<lparr>DeviceName = [], OutletNumber = [], Status = [], LastUpdate = zeroTime\<rparr>"

definition Get :: "DeviceStore \<Rightarrow> string \<Rightarrow> string \<Rightarrow> DeviceOutlet \<times> bool" where
  "Get s deviceName outletNumber =
     (let key = makeKey deviceName outletNumber in
      case devices s key of
        None \<Rightarrow> (zeroDeviceOutlet, False)
      | Some device \<Rightarrow> (device, True))"

text \<open>
  The test of the sorting loops: outlet \<open>a\<close> has to stand behind outlet \<open>b\<close>.
\<close>

definition sortsAfter :: "DeviceOutlet \<Rightarrow> DeviceOutlet \<Rightarrow> bool" where
  "sortsAfter a b =
     (DeviceName a > DeviceName b \<or>
      (DeviceName a = DeviceName b \<and> OutletNumber a > OutletNumber b))"

text \<open>
  The two nested loops that sort a slice in place: \<open>sortInner i j\<close> is the inner loop
  from index \<open>j\<close> on, \<open>sortOuter i\<close> the outer loop from index \<open>i\<close> on. The inner loop
  runs with \<open>i < j\<close>, so both indices are inside the slice wherever it reads.
\<close>

function sortInner :: "nat \<Rightarrow> nat \<Rightarrow> DeviceOutlet list \<Rightarrow> DeviceOutlet list" where
  "sortInner i j ds =
     (if j < length ds
      then sortInner i (j + 1)
             (if sortsAfter (ds ! i) (ds ! j) then ds[i := ds ! j, j := ds ! i] else ds)
      else ds)"
  by pat_completeness auto
termination
  by (relation "measure (\<lambda>(i, j, ds). length ds - j)") auto

declare sortInner.simps [simp del]

function sortOuter :: "nat \<Rightarrow> DeviceOutlet list \<Rightarrow> DeviceOutlet list" where
  "sortOuter i ds =
     (if i < length ds then sortOuter (i + 1) (sortInner i (i + 1) ds) else ds)"
  by pat_completeness auto
termination
proof (relation "measure (\<lambda>(i, ds). length ds - i)")
  show "wf (measure (\<lambda>(i, ds). length ds - i))" by simp
next
  fix i :: nat and ds :: "DeviceOutlet list"
  assume less: "i < length ds"
  have len: "length (sortInner a b xs) = length xs" for a b xs
  proof (induction a b xs rule: sortInner.induct)
    case (1 i j ds)
    show ?case
    proof (cases "j < length ds")
      case True
      then show ?thesis using "1.IH" by (subst sortInner.simps) simp
    next
      case False
      then show ?thesis by (subst sortInner.simps) simp
    qed
  qed
  from less show "((i + 1, sortInner i (i + 1) ds), (i, ds)) \<in> measure (\<lambda>(i, ds). length ds - i)"
    by (simp add: len)
qed

declare sortOuter.simps [simp del]

definition sortDevices :: "DeviceOutlet list \<Rightarrow> DeviceOutlet list" where
  "sortDevices ds = sortOuter 0 ds"

text \<open>
  Go visits the keys of a map in an order it does not specify. The order of one visit is
  the argument \<open>order\<close> of the functions that range over the map: a list that holds every
  key of the map once (\<open>rangeOrder\<close>).
\<close>

definition rangeOrder :: "DeviceStore \<Rightarrow> string list \<Rightarrow> bool" where
  "rangeOrder s order = (distinct order \<and> set order = dom (devices s))"

definition DeviceStore_GetAll :: "DeviceStore \<Rightarrow> string list \<Rightarrow> DeviceOutlet list" where
  "DeviceStore_GetAll s order = sortDevices (List.map_filter (devices s) order)"

text \<open>
  The test of the filter loop, on the lower-cased search text. The parameter \<open>uni\<close> is
  the one of \<open>ToLower\<close>.
\<close>

definition filterTest :: "(string \<Rightarrow> string) \<Rightarrow> string \<Rightarrow> DeviceOutlet \<Rightarrow> bool" where
  "filterTest uni searchText device =
     (Contains (ToLower uni (DeviceName device)) searchText \<or>
      Contains (ToLower uni (OutletNumber device)) searchText \<or>
      Contains (ToLower uni (Status device)) searchText)"

definition Filter ::
  "(string \<Rightarrow> string) \<Rightarrow> DeviceStore \<Rightarrow> string \<Rightarrow> string list \<Rightarrow> DeviceOutlet list" where
  "Filter uni s searchText order =
     (if searchText = [] then DeviceStore_GetAll s order
      else
        let searchText = ToLower uni searchText;
            filtered = filter (filterTest uni searchText) (List.map_filter (devices s) order)
        in sortDevices filtered)"

definition DeviceStore_Clear :: "DeviceStore \<Rightarrow> DeviceStore" where
  "DeviceStore_Clear s = s\<lparr>devices := Map.empty\<rparr>"

text \<open>
  The stores a program can build: \<open>NewDeviceStore\<close>, followed by calls of \<open>Add\<close> and
  \<open>Clear\<close> in any number and order.
\<close>

datatype store_call = CallAdd DeviceOutlet time | CallClear

fun storeCalls :: "DeviceStore \<Rightarrow> store_call list \<Rightarrow> DeviceStore" where
  "storeCalls s [] = s"
| "storeCalls s (CallAdd device now # calls) = storeCalls (Add s device now) calls"
| "storeCalls s (CallClear # calls) = storeCalls (DeviceStore_Clear s) calls"

text \<open>
  The identity of an outlet, the pair the sorting loops compare: \<open>sortsAfter a b\<close> says
  that the identity of \<open>b\<close> is below the one of \<open>a\<close> in the lexicographic order of pairs.
\<close>

definition identity :: "DeviceOutlet \<Rightarrow> string \<times> string" where
  "identity device = (DeviceName device, OutletNumber device)"

text \<open>
  The invariant of the outer sorting loop: every position below \<open>i\<close> holds an outlet
  that is at most each outlet behind it.
\<close>

definition placed :: "nat \<Rightarrow> DeviceOutlet list \<Rightarrow> bool" where
  "placed i ds \<longleftrightarrow>
     (\<forall>a b. a < i \<and> a < b \<and> b < length ds \<longrightarrow> identity (ds ! a) \<le> identity (ds ! b))"

text \<open>
  The invariant of the store: every outlet is filed under the key made of its own name
  and number.
\<close>

definition keysAgree :: "DeviceStore \<Rightarrow> bool" where
  "keysAgree s \<longleftrightarrow>
     (\<forall>k d. devices s k = Some d \<longrightarrow> k = makeKey (DeviceName d) (OutletNumber d))"

text \<open>
  The words of the specification for the filter: a string contains a substring without
  regard to case when it does so after both are put in lower case, and an outlet matches
  when its name, its number or its state does.
\<close>

definition containsFold :: "(string \<Rightarrow> string) \<Rightarrow> string \<Rightarrow> string \<Rightarrow> bool" where
  "containsFold uni s substr = Contains (ToLower uni s) (ToLower uni substr)"

definition matchesFold :: "(string \<Rightarrow> string) \<Rightarrow> string \<Rightarrow> DeviceOutlet \<Rightarrow> bool" where
  "matchesFold uni substr device =
     (containsFold uni (DeviceName device) substr \<or>
      containsFold uni (OutletNumber device) substr \<or>
      containsFold uni (Status device) substr)"

text \<open>Three calls of \<open>Add\<close>, for the examples below.\<close>

definition exampleCalls :: "store_call list" where
  "exampleCalls =
     [CallAdd \<lparr>DeviceName = ''office-strip'', OutletNumber = ''2'', Status = ''OFF'',
               LastUpdate = 0\<rparr> 10,
      CallAdd \<lparr>DeviceName = ''office-strip'', OutletNumber = ''1'', Status = ''ON'',
               LastUpdate = 0\<rparr> 20,
      CallAdd \<lparr>DeviceName = ''Lab'', OutletNumber = ''7'', Status = ''OFF'',
               LastUpdate = 0\<rparr> 30]"

section \<open>Message log (models/message.go)\<close>

type_synonym MessageDirection = string

definition MessageSent :: MessageDirection where
  "MessageSent = ''Send''"

definition MessageReceived :: MessageDirection where
  "MessageReceived = ''Recv''"

record MQTTMessage =
  Direction :: MessageDirection
  Topic :: string
  Payload :: string
  Timestamp :: time

record MessageLog =
  messages :: "MQTTMessage list"
  maxSize :: int

definition NewMessageLog :: "int \<Rightarrow> MessageLog" where
  "NewMessageLog limit =
     (let limit = (if limit \<le> 0 then 1000 else limit)
      in \<lparr>messages = [], maxSize = limit\<rparr>)"

text \<open>
  A run-time panic of Go ends the call and, unrecovered, the program: it is the left
  summand of a result.
\<close>

datatype panic = SliceBoundsOutOfRange | NilPointerDereference

text \<open>
  The slice expression \<^verbatim>\<open>l.messages[:l.maxSize]\<close> panics on a negative bound; the bound
  is below the length, hence inside the capacity, wherever the expression is reached.
\<close>

definition AddMessage ::
  "MessageLog \<Rightarrow> MessageDirection \<Rightarrow> string \<Rightarrow> string \<Rightarrow> time \<Rightarrow> panic + MessageLog" where
  "AddMessage l direction topic payload now =
     (let msg = \<lparr>Direction = direction, Topic = topic, Payload = payload, Timestamp = now\<rparr>;
          msgs = msg # messages l
      in if int (length msgs) > maxSize l
         then (if maxSize l < 0 then Inl SliceBoundsOutOfRange
               else Inr (l\<lparr>messages := take (nat (maxSize l)) msgs\<rparr>))
         else Inr (l\<lparr>messages := msgs\<rparr>))"

definition GetRecent :: "MessageLog \<Rightarrow> int \<Rightarrow> MQTTMessage list" where
  "GetRecent l n =
     (let n = (if n \<le> 0 \<or> n > int (length (messages l)) then int (length (messages l)) else n)
      in take (nat n) (messages l))"

definition MessageLog_GetAll :: "MessageLog \<Rightarrow> MQTTMessage list" where
  "MessageLog_GetAll l = messages l"

definition MessageLog_Clear :: "MessageLog \<Rightarrow> MessageLog" where
  "MessageLog_Clear l = l\<lparr>messages := []\<rparr>"

definition MessageLog_Count :: "MessageLog \<Rightarrow> int" where
  "MessageLog_Count l = int (length (messages l))"

text \<open>
  A caller that appends one message after the other; each element holds the arguments
  of one call and the time of that call.
\<close>

type_synonym append_call = "MessageDirection \<times> string \<times> string \<times> time"

definition entryOf :: "append_call \<Rightarrow> MQTTMessage" where
  "entryOf call =
     (case call of (direction, topic, payload, now) \<Rightarrow>
        \<lparr>Direction = direction, Topic = topic, Payload = payload, Timestamp = now\<rparr>)"

fun AddMessages :: "MessageLog \<Rightarrow> append_call list \<Rightarrow> panic + MessageLog" where
  "AddMessages l [] = Inr l"
| "AddMessages l ((direction, topic, payload, now) # calls) =
     (case AddMessage l direction topic payload now of
        Inl p \<Rightarrow> Inl p
      | Inr l' \<Rightarrow> AddMessages l' calls)"

section \<open>Configuration (package config)\<close>

record Config =
  Username :: string
  PasswordHash :: string
  MQTTServer :: string
  ServerPort :: int
  SubscribeString :: string

text \<open>
  What lies outside the program and answers it: the cipher behind the stored password, the
  disk the configuration file is written to, and the broker behind the session. A cipher
  and the disk answer with a result or the text of an error; a token of the MQTT library
  runs out of time, ends in an error or is done.
\<close>

datatype token = TokenTimeout | TokenError string | TokenDone

record world =
  encryptCipher :: "string \<Rightarrow> string + string"
  decryptCipher :: "string \<Rightarrow> string + string"
  configPathError :: "string option"
  writeFileError :: "string option"
  connectToken :: token
  subscribeToken :: token
  publishToken :: token

datatype config_error =
    InvalidServerPort int
  | EncryptFailed string
  | DecryptFailed string
  | ConfigPathFailed string
  | InvalidConfig config_error
  | WriteFileFailed string







section \<open>Connection manager (mqtt/client.go)\<close>

text \<open>
  Of the \<^verbatim>\<open>Client\<close> struct the model keeps whether the session handle \<^verbatim>\<open>client\<close> is set
  and the flag \<^verbatim>\<open>connected\<close>. The two callbacks are the coordinator's handlers below, and
  the transport calls them from a thread of its own: in the model each such call is a
  step by itself. Each method returns its error, \<open>None\<close> for \<^verbatim>\<open>nil\<close>, and, where it
  changes the client, the client.
\<close>

record Client =
  client :: bool
  connected :: bool

datatype mqtt_error =
    ServerNotConfigured
  | DecryptPasswordFailed config_error
  | ConnectionTimeout
  | ConnectionFailed string
  | ClientNotInitialized
  | SubscribeTimeout
  | SubscribeFailed string
  | NotConnected
  | PublishTimeout
  | PublishFailed string

definition NewClient :: Client where
  "NewClient = \<lparr>client = False, connected = False\<rparr>"



definition Publish :: "world \<Rightarrow> Client \<Rightarrow> string \<Rightarrow> string \<Rightarrow> mqtt_error option" where
  "Publish w c topic payload =
     (if \<not> client c then Some ClientNotInitialized
      else if \<not> connected c then Some NotConnected
      else
        (case publishToken w of
           TokenTimeout \<Rightarrow> Some PublishTimeout
         | TokenError err \<Rightarrow> Some (PublishFailed err)
         | TokenDone \<Rightarrow> None))"

definition IsConnected :: "Client \<Rightarrow> bool" where
  "IsConnected c = connected c"

text \<open>
  \<open>Disconnect\<close> closes the session of the library when there is one and it is up, which
  changes nothing in the struct, and clears the flag.
\<close>

definition Client_Disconnect :: "Client \<Rightarrow> Client" where
  "Client_Disconnect c = c\<lparr>connected := False\<rparr>"

section \<open>Application coordinator (app/app.go)\<close>

text \<open>
  The events handed to the user interface by \<^verbatim>\<open>runtime.EventsEmit\<close> are kept as a trace,
  the field \<open>emitted\<close>, oldest first. The field \<open>config\<close> is \<open>None\<close> while the pointer is
  \<^verbatim>\<open>nil\<close>.
\<close>

datatype ui_event =
    MessageNew string string string
  | DeviceUpdate DeviceOutlet
  | ConnectionStatus bool
  | LogCleared

record App =
  mqttClient :: Client
  deviceStore :: DeviceStore
  messageLog :: MessageLog
  config :: "Config option"
  emitted :: "ui_event list"

datatype app_error =
    FailedToEncryptPassword config_error
  | InvalidConfiguration config_error
  | FailedToSaveConfig config_error
  | FailedToConnect mqtt_error
  | FailedToSendCommand mqtt_error

definition NewApp :: App where
  "NewApp =
     \<lparr>mqttClient = NewClient, deviceStore = NewDeviceStore, messageLog = NewMessageLog 1000,
      config = None, emitted = []\<rparr>"


text \<open>
  The handler of an inbound message. Its two readings of the clock are \<open>logTime\<close>, in
  \<open>AddMessage\<close>, and \<open>storeTime\<close>, in \<open>Add\<close>.
\<close>

definition handleMQTTMessage ::
  "App \<Rightarrow> string \<Rightarrow> string \<Rightarrow> time \<Rightarrow> time \<Rightarrow> panic + App" where
  "handleMQTTMessage a topic payload logTime storeTime =
     (case AddMessage (messageLog a) MessageReceived topic payload logTime of
        Inl p \<Rightarrow> Inl p
      | Inr l \<Rightarrow>
          let a = a\<lparr>messageLog := l, emitted := emitted a @ [MessageNew ''Recv'' topic payload]\<rparr> in
          (case ParseTopic topic of
             Inl err \<Rightarrow> Inr a
           | Inr (device, outlet) \<Rightarrow>
               let status = ParsePayload payload;
                   deviceOutlet =
                     \<lparr>DeviceName = device, OutletNumber = outlet, Status = status,
                      LastUpdate = zeroTime\<rparr>
               in Inr (a\<lparr>deviceStore := Add (deviceStore a) deviceOutlet storeTime,
                         emitted := emitted a @ [DeviceUpdate deviceOutlet]\<rparr>)))"

definition handleConnectionStatus :: "App \<Rightarrow> bool \<Rightarrow> App" where
  "handleConnectionStatus a isConnected = a\<lparr>emitted := emitted a @ [ConnectionStatus isConnected]\<rparr>"

definition GetDevices :: "App \<Rightarrow> string list \<Rightarrow> DeviceOutlet list" where
  "GetDevices a order = DeviceStore_GetAll (deviceStore a) order"

definition SearchDevices ::
  "(string \<Rightarrow> string) \<Rightarrow> App \<Rightarrow> string \<Rightarrow> string list \<Rightarrow> DeviceOutlet list" where
  "SearchDevices uni a searchText order = Filter uni (deviceStore a) searchText order"

definition GetMessages :: "App \<Rightarrow> MQTTMessage list" where
  "GetMessages a = MessageLog_GetAll (messageLog a)"


definition SendCommand ::
  "(string \<Rightarrow> string) \<Rightarrow> world \<Rightarrow> App \<Rightarrow> string \<Rightarrow> string \<Rightarrow> string \<Rightarrow> time \<Rightarrow>
     panic + app_error option \<times> App" where
  "SendCommand uni w a deviceName outletNumber state now =
     (let topic = MakeCommandTopic deviceName outletNumber;
          payload = StatusToPayload uni state
      in case Publish w (mqttClient a) topic payload of
           Some err \<Rightarrow> Inr (Some (FailedToSendCommand err), a)
         | None \<Rightarrow>
             (case AddMessage (messageLog a) MessageSent topic payload now of
                Inl p \<Rightarrow> Inl p
              | Inr l \<Rightarrow>
                  Inr (None, a\<lparr>messageLog := l,
                                emitted := emitted a @ [MessageNew ''Send'' topic payload]\<rparr>)))"

definition App_Disconnect :: "App \<Rightarrow> App" where
  "App_Disconnect a = a\<lparr>mqttClient := Client_Disconnect (mqttClient a)\<rparr>"

definition ClearLog :: "App \<Rightarrow> App" where
  "ClearLog a = a\<lparr>messageLog := MessageLog_Clear (messageLog a), emitted := emitted a @ [LogCleared]\<rparr>"

text \<open>
  For the examples below: a world in which nothing fails, a coordinator whose device
  store holds the three example outlets, and a coordinator whose session was set up and
  is down.
\<close>

definition exampleWorld :: world where
  "exampleWorld =
     \<lparr>encryptCipher = Inr, decryptCipher = Inr, configPathError = None, writeFileError = None,
      connectToken = TokenDone, subscribeToken = TokenDone, publishToken = TokenDone\<rparr>"

definition exampleApp :: App where
  "exampleApp = NewApp\<lparr>deviceStore := storeCalls NewDeviceStore exampleCalls\<rparr>"

definition droppedApp :: App where
  "droppedApp = NewApp\<lparr>mqttClient := \<lparr>client = True, connected = False\<rparr>\<rparr>"

section \<open>Properties of the string functions\<close>

lemma Split_append_sep:
  "sep \<notin> set a \<Longrightarrow> Split (a @ sep # b) sep = a # Split b sep"
proof -
  assume a: "sep \<notin> set a"
  then have tw: "takeWhile (\<lambda>c. c \<noteq> sep) (a @ sep # b) = a"
    by (induction a) auto
  from a have dw: "dropWhile (\<lambda>c. c \<noteq> sep) (a @ sep # b) = sep # b"
    by (induction a) auto
  show ?thesis by (subst Split.simps) (simp add: tw dw)
qed

lemma Split_no_sep: "sep \<notin> set a \<Longrightarrow> Split a sep = [a]"
  by (subst Split.simps) simp

lemma Split_not_Nil: "Split s sep \<noteq> []"
  by (subst Split.simps) simp

lemma Join_Cons: "ps \<noteq> [] \<Longrightarrow> Join (p # ps) sep = p @ sep # Join ps sep"
  by (cases ps) simp_all

lemma Join_Split: "Join (Split s sep) sep = s"
proof (induction s sep rule: Split.induct)
  case (1 s sep)
  show ?case
  proof (cases "sep \<in> set s")
    case True
    let ?d = "dropWhile (\<lambda>c. c \<noteq> sep) s"
    from True have ne: "?d \<noteq> []" by simp
    then have "hd ?d = sep" using hd_dropWhile [of "\<lambda>c. c \<noteq> sep" s] by simp
    with ne have d: "?d = sep # tl ?d" by (cases ?d) simp_all
    have "Join (Split s sep) sep = takeWhile (\<lambda>c. c \<noteq> sep) s @ sep # Join (Split (tl ?d) sep) sep"
      using True by (subst Split.simps) (simp add: Join_Cons Split_not_Nil)
    also have "\<dots> = takeWhile (\<lambda>c. c \<noteq> sep) s @ sep # tl ?d"
      using "1.IH" [OF True] by simp
    also have "\<dots> = takeWhile (\<lambda>c. c \<noteq> sep) s @ ?d" using d by simp
    finally show ?thesis by simp
  next
    case False
    then show ?thesis by (simp add: Split_no_sep)
  qed
qed

lemma Split_parts_no_sep: "p \<in> set (Split s sep) \<Longrightarrow> sep \<notin> set p"
proof (induction s sep rule: Split.induct)
  case (1 s sep)
  show ?case
  proof (cases "sep \<in> set s")
    case True
    from "1.prems" True
    have "p = takeWhile (\<lambda>c. c \<noteq> sep) s \<or> p \<in> set (Split (tl (dropWhile (\<lambda>c. c \<noteq> sep) s)) sep)"
      by (subst (asm) Split.simps) simp
    then show ?thesis
    proof
      assume "p = takeWhile (\<lambda>c. c \<noteq> sep) s"
      then show ?thesis by (auto dest: set_takeWhileD)
    next
      assume "p \<in> set (Split (tl (dropWhile (\<lambda>c. c \<noteq> sep) s)) sep)"
      then show ?thesis using "1.IH" [OF True] by simp
    qed
  next
    case False
    with "1.prems" show ?thesis by (simp add: Split_no_sep)
  qed
qed

lemma four_parts:
  "4 \<le> length parts \<Longrightarrow> \<exists>p0 p1 p2 p3 more. parts = p0 # p1 # p2 # p3 # more"
  by (auto simp: eval_nat_numeral Suc_le_length_iff)

lemma Split_status_shape:
  assumes "CHR ''/'' \<notin> set dev" "CHR ''/'' \<notin> set out" "rest = [] \<or> hd rest = CHR ''/''"
  shows "\<exists>more. Split (''power/'' @ dev @ ''/outlets/'' @ out @ rest) CHR ''/'' =
           ''power'' # dev # ''outlets'' # out # more"
proof -
  have a: "Split (''power/'' @ dev @ ''/outlets/'' @ out @ rest) CHR ''/'' =
        ''power'' # Split (dev @ CHR ''/'' # ''outlets/'' @ out @ rest) CHR ''/''"
    using Split_append_sep [of "CHR ''/''" "''power''"] by simp
  have b: "Split (dev @ CHR ''/'' # ''outlets/'' @ out @ rest) CHR ''/'' =
        dev # Split (''outlets/'' @ out @ rest) CHR ''/''"
    using assms(1) by (rule Split_append_sep)
  have c: "Split (''outlets/'' @ out @ rest) CHR ''/'' = ''outlets'' # Split (out @ rest) CHR ''/''"
    using Split_append_sep [of "CHR ''/''" "''outlets''"] by simp
  have d: "\<exists>more. Split (out @ rest) CHR ''/'' = out # more"
  proof (cases rest)
    case Nil
    then show ?thesis using assms(2) by (simp add: Split_no_sep)
  next
    case (Cons r rs)
    with assms(3) have "rest = CHR ''/'' # rs" by simp
    then show ?thesis using assms(2) by (simp add: Split_append_sep)
  qed
  from a b c d show ?thesis by auto
qed

lemma ParseTopic_Inr_iff:
  "ParseTopic topic = Inr (dev, out) \<longleftrightarrow>
     dev \<noteq> [] \<and> out \<noteq> [] \<and> CHR ''/'' \<notin> set dev \<and> CHR ''/'' \<notin> set out \<and>
     (\<exists>rest. topic = ''power/'' @ dev @ ''/outlets/'' @ out @ rest \<and>
             (rest = [] \<or> hd rest = CHR ''/''))"
  (is "?L \<longleftrightarrow> ?R")
proof
  assume L: ?L
  let ?parts = "Split topic CHR ''/''"
  from L have len: "4 \<le> length ?parts"
    by (auto simp: ParseTopic_def Let_def split: if_splits)
  then obtain p0 p1 p2 p3 more where parts: "?parts = p0 # p1 # p2 # p3 # more"
    using four_parts by blast
  from L parts have vals: "p0 = ''power''" "p2 = ''outlets''" "p1 = dev" "p3 = out" "dev \<noteq> []" "out \<noteq> []"
    by (auto simp: ParseTopic_def Let_def split: if_splits)
  have nosep: "CHR ''/'' \<notin> set dev" "CHR ''/'' \<notin> set out"
    using Split_parts_no_sep [of dev topic "CHR ''/''"] Split_parts_no_sep [of out topic "CHR ''/''"]
      parts vals by simp_all
  define rest where "rest = (if more = [] then [] else CHR ''/'' # Join more CHR ''/'')"
  have "topic = Join ?parts CHR ''/''" by (simp add: Join_Split)
  also have "\<dots> = ''power/'' @ dev @ ''/outlets/'' @ out @ rest"
    unfolding parts vals rest_def by (cases more) simp_all
  finally have "topic = ''power/'' @ dev @ ''/outlets/'' @ out @ rest" .
  moreover have "rest = [] \<or> hd rest = CHR ''/''" by (simp add: rest_def)
  ultimately show ?R using vals nosep by blast
next
  assume R: ?R
  then obtain rest where t: "topic = ''power/'' @ dev @ ''/outlets/'' @ out @ rest"
    and r: "rest = [] \<or> hd rest = CHR ''/''" by blast
  from R r obtain more where "Split (''power/'' @ dev @ ''/outlets/'' @ out @ rest) CHR ''/'' =
      ''power'' # dev # ''outlets'' # out # more"
    using Split_status_shape [of dev out rest] by blast
  with R show ?L unfolding t by (simp add: ParseTopic_def Let_def)
qed

section \<open>Properties of the topic codec\<close>

text \<open>
  C1 (amended). \<open>ParseTopic\<close> returns a device and an outlet exactly for the topics
  \<^verbatim>\<open>power/<device>/outlets/<outlet>\<close> followed by nothing or by a slash and anything at
  all, where device and outlet are non-empty and free of slashes: the first segment is
  \<^verbatim>\<open>power\<close>, the third is \<^verbatim>\<open>outlets\<close>, and there are four segments or more (the guard
  is \<^verbatim>\<open>len(parts) < 4\<close>, and the comment above it names the five-segment form ending in
  \<^verbatim>\<open>set\<close> as expected). Every other topic is answered with an error.
\<close>

theorem ParseTopic_succeeds_iff:
  "(ParseTopic topic = Inr (dev, out) \<longleftrightarrow>
      dev \<noteq> [] \<and> out \<noteq> [] \<and> CHR ''/'' \<notin> set dev \<and> CHR ''/'' \<notin> set out \<and>
      (\<exists>rest. topic = ''power/'' @ dev @ ''/outlets/'' @ out @ rest \<and>
              (rest = [] \<or> hd rest = CHR ''/''))) \<and>
   ((\<exists>e. ParseTopic topic = Inl e) \<longleftrightarrow>
      \<not> (\<exists>d p rest. d \<noteq> [] \<and> p \<noteq> [] \<and> CHR ''/'' \<notin> set d \<and> CHR ''/'' \<notin> set p \<and>
             topic = ''power/'' @ d @ ''/outlets/'' @ p @ rest \<and>
             (rest = [] \<or> hd rest = CHR ''/'')))"
proof (rule conjI)
  show "ParseTopic topic = Inr (dev, out) \<longleftrightarrow>
      dev \<noteq> [] \<and> out \<noteq> [] \<and> CHR ''/'' \<notin> set dev \<and> CHR ''/'' \<notin> set out \<and>
      (\<exists>rest. topic = ''power/'' @ dev @ ''/outlets/'' @ out @ rest \<and>
              (rest = [] \<or> hd rest = CHR ''/''))"
    by (rule ParseTopic_Inr_iff)
next
  have "(\<exists>e. ParseTopic topic = Inl e) \<longleftrightarrow> \<not> (\<exists>d p. ParseTopic topic = Inr (d, p))"
    by (cases "ParseTopic topic") auto
  also have "\<dots> \<longleftrightarrow>
      \<not> (\<exists>d p rest. d \<noteq> [] \<and> p \<noteq> [] \<and> CHR ''/'' \<notin> set d \<and> CHR ''/'' \<notin> set p \<and>
             topic = ''power/'' @ d @ ''/outlets/'' @ p @ rest \<and>
             (rest = [] \<or> hd rest = CHR ''/''))"
    unfolding ParseTopic_Inr_iff by blast
  finally show "(\<exists>e. ParseTopic topic = Inl e) \<longleftrightarrow>
      \<not> (\<exists>d p rest. d \<noteq> [] \<and> p \<noteq> [] \<and> CHR ''/'' \<notin> set d \<and> CHR ''/'' \<notin> set p \<and>
             topic = ''power/'' @ d @ ''/outlets/'' @ p @ rest \<and>
             (rest = [] \<or> hd rest = CHR ''/''))" .
qed

text \<open>
  The theorem at the command topic of device \<^verbatim>\<open>office-strip\<close>, outlet \<^verbatim>\<open>1\<close>: five
  segments, accepted.
\<close>

theorem ParseTopic_succeeds_iff_witness:
  "ParseTopic ''power/office-strip/outlets/1/set'' = Inr (''office-strip'', ''1'')"
proof -
  have "\<exists>rest. ''power/office-strip/outlets/1/set'' =
          ''power/'' @ ''office-strip'' @ ''/outlets/'' @ ''1'' @ rest \<and>
          (rest = [] \<or> hd rest = CHR ''/'')"
    by (rule exI [of _ "''/set''"]) simp
  then show ?thesis
    using ParseTopic_succeeds_iff [of "''power/office-strip/outlets/1/set''" "''office-strip''" "''1''"]
    by simp
qed

text \<open>
  C1 as stated fails: a topic of five segments, the status shape with a trailing
  \<^verbatim>\<open>/set\<close>, is decoded and not rejected.
\<close>

theorem ParseTopic_five_segments_accepted:
  "length (Split ''power/a/outlets/1/set'' CHR ''/'') = 5 \<and>
   ParseTopic ''power/a/outlets/1/set'' = Inr (''a'', ''1'')"
  by code_simp

text \<open>
  C5. For a non-empty device name and a non-empty outlet, neither holding a slash, the
  topic \<^verbatim>\<open>power/<device>/outlets/<outlet>\<close>, which is the command topic that
  \<open>MakeCommandTopic\<close> builds without its \<^verbatim>\<open>/set\<close> suffix, decodes to that device and
  that outlet, with no error.
\<close>

theorem ParseTopic_roundtrip:
  assumes "dev \<noteq> []" and "out \<noteq> []"
    and "CHR ''/'' \<notin> set dev" and "CHR ''/'' \<notin> set out"
  shows "MakeCommandTopic dev out = (''power/'' @ dev @ ''/outlets/'' @ out) @ ''/set'' \<and>
         ParseTopic (''power/'' @ dev @ ''/outlets/'' @ out) = Inr (dev, out)"
proof -
  obtain more where "Split (''power/'' @ dev @ ''/outlets/'' @ out @ []) CHR ''/'' =
      ''power'' # dev # ''outlets'' # out # more"
    using Split_status_shape [of dev out "[]"] assms(3,4) by blast
  then have "ParseTopic (''power/'' @ dev @ ''/outlets/'' @ out) = Inr (dev, out)"
    using assms(1,2) by (simp add: ParseTopic_def Let_def)
  then show ?thesis by (simp add: MakeCommandTopic_def)
qed

theorem ParseTopic_roundtrip_witness:
  "MakeCommandTopic ''office-strip'' ''1'' = ''power/office-strip/outlets/1/set'' \<and>
   ParseTopic ''power/office-strip/outlets/1'' = Inr (''office-strip'', ''1'')"
  using ParseTopic_roundtrip [of "''office-strip''" "''1''"] by simp

text \<open>
  C4 (amended). Decoding and encoding again gives back the payloads \<^verbatim>\<open>0\<close> and \<^verbatim>\<open>1\<close>.
  A payload whose trimmed form is \<^verbatim>\<open>0\<close> decodes to \<^verbatim>\<open>OFF\<close>, one whose trimmed form is
  \<^verbatim>\<open>1\<close> to \<^verbatim>\<open>ON\<close>, and every other payload to its trimmed form. A status whose
  trimmed, upper-cased form is \<^verbatim>\<open>OFF\<close> encodes to \<^verbatim>\<open>0\<close>, one whose form is \<^verbatim>\<open>ON\<close> to
  \<^verbatim>\<open>1\<close>, and every other status to its trimmed, upper-cased form.
\<close>

theorem payload_codec:
  "(p = ''0'' \<or> p = ''1'' \<longrightarrow> StatusToPayload uni (ParsePayload p) = p) \<and>
   (TrimSpace s = ''0'' \<longrightarrow> ParsePayload s = ''OFF'') \<and>
   (TrimSpace s = ''1'' \<longrightarrow> ParsePayload s = ''ON'') \<and>
   (TrimSpace s \<noteq> ''0'' \<and> TrimSpace s \<noteq> ''1'' \<longrightarrow> ParsePayload s = TrimSpace s) \<and>
   (ToUpper uni (TrimSpace s) = ''OFF'' \<longrightarrow> StatusToPayload uni s = ''0'') \<and>
   (ToUpper uni (TrimSpace s) = ''ON'' \<longrightarrow> StatusToPayload uni s = ''1'') \<and>
   (ToUpper uni (TrimSpace s) \<noteq> ''OFF'' \<and> ToUpper uni (TrimSpace s) \<noteq> ''ON'' \<longrightarrow>
      StatusToPayload uni s = ToUpper uni (TrimSpace s))"
proof -
  have t0: "TrimSpace ''0'' = ''0''" and t1: "TrimSpace ''1'' = ''1''"
    and toff: "TrimSpace ''OFF'' = ''OFF''" and ton: "TrimSpace ''ON'' = ''ON''"
    by code_simp+
  have uoff: "ToUpper uni ''OFF'' = ''OFF''" and uon: "ToUpper uni ''ON'' = ''ON''"
    by (simp_all add: ToUpper_def isASCII_def upperByte_def)
  have r0: "StatusToPayload uni (ParsePayload ''0'') = ''0''"
    by (simp add: ParsePayload_def StatusToPayload_def t0 toff uoff)
  have r1: "StatusToPayload uni (ParsePayload ''1'') = ''1''"
    by (simp add: ParsePayload_def StatusToPayload_def t1 ton uon)
  have rt: "p = ''0'' \<or> p = ''1'' \<longrightarrow> StatusToPayload uni (ParsePayload p) = p"
    using r0 r1 by blast
  have dec: "(TrimSpace s = ''0'' \<longrightarrow> ParsePayload s = ''OFF'') \<and>
      (TrimSpace s = ''1'' \<longrightarrow> ParsePayload s = ''ON'') \<and>
      (TrimSpace s \<noteq> ''0'' \<and> TrimSpace s \<noteq> ''1'' \<longrightarrow> ParsePayload s = TrimSpace s)"
    by (simp add: ParsePayload_def Let_def)
  have enc: "(ToUpper uni (TrimSpace s) = ''OFF'' \<longrightarrow> StatusToPayload uni s = ''0'') \<and>
      (ToUpper uni (TrimSpace s) = ''ON'' \<longrightarrow> StatusToPayload uni s = ''1'') \<and>
      (ToUpper uni (TrimSpace s) \<noteq> ''OFF'' \<and> ToUpper uni (TrimSpace s) \<noteq> ''ON'' \<longrightarrow>
         StatusToPayload uni s = ToUpper uni (TrimSpace s))"
    by (simp add: StatusToPayload_def Let_def)
  from rt dec enc show ?thesis by blast
qed

text \<open>
  The theorem at the payloads \<^verbatim>\<open>0\<close> and \<^verbatim>\<open>1\<close>, at the payload \<^verbatim>\<open>dim\<close> with white space
  around it, and at the status \<^verbatim>\<open>on\<close>.
\<close>

theorem payload_codec_witness:
  "StatusToPayload id (ParsePayload ''0'') = ''0'' \<and>
   StatusToPayload id (ParsePayload ''1'') = ''1'' \<and>
   TrimSpace '' dim  '' = ''dim'' \<and> ParsePayload '' dim  '' = ''dim'' \<and>
   ToUpper id (TrimSpace '' dim  '') = ''DIM'' \<and> StatusToPayload id '' dim  '' = ''DIM''"
proof -
  have t: "TrimSpace '' dim  '' = ''dim''" by code_simp
  have u: "ToUpper id ''dim'' = ''DIM''" by code_simp
  show ?thesis
    using payload_codec [of "''0''" id "'' dim  ''"] payload_codec [of "''1''" id "'' dim  ''"]
    by (simp add: t u)
qed

text \<open>
  C4 as stated fails. The string of a space and \<^verbatim>\<open>0\<close> is non-empty and is neither
  \<^verbatim>\<open>0\<close> nor \<^verbatim>\<open>1\<close>, yet it decodes to \<^verbatim>\<open>OFF\<close> and not to its trimmed form; the string
  \<^verbatim>\<open>ON\<close> encodes to \<^verbatim>\<open>1\<close> and not to its trimmed, upper-cased form.
\<close>

theorem payload_codec_counterexample:
  "'' 0'' \<noteq> [] \<and> '' 0'' \<noteq> ''0'' \<and> '' 0'' \<noteq> ''1'' \<and>
   ParsePayload '' 0'' = ''OFF'' \<and> TrimSpace '' 0'' = ''0'' \<and>
   StatusToPayload id ''ON'' = ''1'' \<and> ToUpper id (TrimSpace ''ON'') = ''ON''"
  by code_simp

section \<open>Properties of the message log\<close>

lemma take_append_take: "take n (xs @ take n ys) = take n (xs @ ys)"
  by (simp add: min_def)

lemma AddMessage_ok:
  assumes "0 \<le> maxSize l"
  shows "AddMessage l direction topic payload now =
           Inr (l\<lparr>messages := take (nat (maxSize l))
                  (\<lparr>Direction = direction, Topic = topic, Payload = payload, Timestamp = now\<rparr>
                     # messages l)\<rparr>)"
  using assms by (simp add: AddMessage_def Let_def)

lemma AddMessages_ok:
  assumes "0 \<le> maxSize l" and "int (length (messages l)) \<le> maxSize l"
  shows "AddMessages l calls =
           Inr (l\<lparr>messages := take (nat (maxSize l)) (rev (map entryOf calls) @ messages l)\<rparr>)"
  using assms
proof (induction calls arbitrary: l)
  case Nil
  then show ?case by simp
next
  case (Cons call calls)
  obtain direction topic payload now where call: "call = (direction, topic, payload, now)"
    by (cases call)
  let ?l' = "l\<lparr>messages := take (nat (maxSize l)) (entryOf call # messages l)\<rparr>"
  have step: "AddMessage l direction topic payload now = Inr ?l'"
    using Cons.prems by (simp add: AddMessage_ok call entryOf_def)
  have "0 \<le> maxSize ?l'" "int (length (messages ?l')) \<le> maxSize ?l'"
    using Cons.prems by simp_all
  then have "AddMessages ?l' calls =
      Inr (?l'\<lparr>messages := take (nat (maxSize ?l')) (rev (map entryOf calls) @ messages ?l')\<rparr>)"
    by (rule Cons.IH)
  then show ?case
    by (simp add: call step take_append_take)
qed

lemma NewMessageLog_maxSize: "maxSize (NewMessageLog n) = (if n \<le> 0 then 1000 else n)"
  by (simp add: NewMessageLog_def)

lemma NewMessageLog_messages: "messages (NewMessageLog n) = []"
  by (simp add: NewMessageLog_def Let_def)

lemma AddMessages_New:
  "AddMessages (NewMessageLog n) calls =
     Inr ((NewMessageLog n)\<lparr>messages := take (nat (maxSize (NewMessageLog n))) (rev (map entryOf calls))\<rparr>)"
  using AddMessages_ok [of "NewMessageLog n" calls]
  by (simp add: NewMessageLog_maxSize NewMessageLog_messages)

text \<open>
  C3. Whatever capacity argument the log is constructed with and whatever appends follow,
  no append panics, the capacity stays what the constructor set, the length of the log
  is at most the capacity, and \<open>GetAll\<close> returns the appended entries newest first: the
  reversed sequence of the appends, cut off behind the capacity. The statement covers
  every moment of a run, since every prefix of a sequence of appends is one.
\<close>

theorem log_bounded_newest_first:
  "\<exists>l. AddMessages (NewMessageLog n) calls = Inr l \<and>
       maxSize l = maxSize (NewMessageLog n) \<and>
       int (length (messages l)) \<le> maxSize l \<and>
       MessageLog_GetAll l = take (nat (maxSize l)) (rev (map entryOf calls))"
proof -
  let ?l = "(NewMessageLog n)\<lparr>messages :=
              take (nat (maxSize (NewMessageLog n))) (rev (map entryOf calls))\<rparr>"
  have "AddMessages (NewMessageLog n) calls = Inr ?l" by (rule AddMessages_New)
  moreover have "maxSize ?l = maxSize (NewMessageLog n)" by simp
  moreover have "int (length (messages ?l)) \<le> maxSize ?l"
    by (auto simp: NewMessageLog_maxSize min_def)
  moreover have "MessageLog_GetAll ?l = take (nat (maxSize ?l)) (rev (map entryOf calls))"
    by (simp add: MessageLog_GetAll_def)
  ultimately show ?thesis by blast
qed

text \<open>
  The theorem at a log of capacity 2 and three appends: the two newest entries are left,
  the newest first.
\<close>

theorem log_bounded_newest_first_witness:
  "\<exists>l. AddMessages (NewMessageLog 2)
          [(''Recv'', ''power/a/outlets/1'', ''1'', 10), (''Send'', ''power/a/outlets/1/set'', ''0'', 20),
           (''Recv'', ''power/a/outlets/1'', ''0'', 30)] = Inr l \<and>
       maxSize l = 2 \<and> length (messages l) = 2 \<and>
       MessageLog_GetAll l =
         [\<lparr>Direction = ''Recv'', Topic = ''power/a/outlets/1'', Payload = ''0'', Timestamp = 30\<rparr>,
          \<lparr>Direction = ''Send'', Topic = ''power/a/outlets/1/set'', Payload = ''0'', Timestamp = 20\<rparr>]"
  using log_bounded_newest_first [of 2 "[(''Recv'', ''power/a/outlets/1'', ''1'', 10),
     (''Send'', ''power/a/outlets/1/set'', ''0'', 20), (''Recv'', ''power/a/outlets/1'', ''0'', 30)]"]
  by (auto simp: NewMessageLog_maxSize entryOf_def MessageLog_GetAll_def)



section \<open>Properties of the sorting loops\<close>

lemma sortsAfter_iff: "sortsAfter a b \<longleftrightarrow> identity b < identity a"
  by (auto simp: sortsAfter_def identity_def)

lemma length_sortInner: "length (sortInner i j ds) = length ds"
proof (induction i j ds rule: sortInner.induct)
  case (1 i j ds)
  show ?case
  proof (cases "j < length ds")
    case True
    then show ?thesis using "1.IH" by (subst sortInner.simps) simp
  next
    case False
    then show ?thesis by (subst sortInner.simps) simp
  qed
qed

lemma mset_sortInner: "i < j \<Longrightarrow> mset (sortInner i j ds) = mset ds"
proof (induction i j ds rule: sortInner.induct)
  case (1 i j ds)
  show ?case
  proof (cases "j < length ds")
    case True
    let ?ds' = "if sortsAfter (ds ! i) (ds ! j) then ds[i := ds ! j, j := ds ! i] else ds"
    from True "1.prems" have "mset ?ds' = mset ds"
      by (simp add: mset_swap)
    moreover have "mset (sortInner i (j + 1) ?ds') = mset ?ds'"
      using "1.IH" [OF True] "1.prems" by simp
    moreover have "sortInner i j ds = sortInner i (j + 1) ?ds'"
      using True by (subst sortInner.simps) simp
    ultimately show ?thesis by simp
  next
    case False
    then show ?thesis by (subst sortInner.simps) simp
  qed
qed

lemma take_sortInner: "i < j \<Longrightarrow> take i (sortInner i j ds) = take i ds"
proof (induction i j ds rule: sortInner.induct)
  case (1 i j ds)
  show ?case
  proof (cases "j < length ds")
    case True
    let ?ds' = "if sortsAfter (ds ! i) (ds ! j) then ds[i := ds ! j, j := ds ! i] else ds"
    from "1.prems" have "take i ?ds' = take i ds" by simp
    moreover have "take i (sortInner i (j + 1) ?ds') = take i ?ds'"
      using "1.IH" [OF True] "1.prems" by simp
    moreover have "sortInner i j ds = sortInner i (j + 1) ?ds'"
      using True by (subst sortInner.simps) simp
    ultimately show ?thesis by simp
  next
    case False
    then show ?thesis by (subst sortInner.simps) simp
  qed
qed

lemma least_sortInner:
  assumes "i < j"
    and "\<And>k. i < k \<Longrightarrow> k < j \<Longrightarrow> identity (ds ! i) \<le> identity (ds ! k)"
    and "i < k" and "k < length ds"
  shows "identity (sortInner i j ds ! i) \<le> identity (sortInner i j ds ! k)"
  using assms
proof (induction i j ds rule: sortInner.induct)
  case (1 i j ds)
  show ?case
  proof (cases "j < length ds")
    case True
    let ?ds' = "if sortsAfter (ds ! i) (ds ! j) then ds[i := ds ! j, j := ds ! i] else ds"
    have unfold: "sortInner i j ds = sortInner i (j + 1) ?ds'"
      using True by (subst sortInner.simps) simp
    have len: "length ?ds' = length ds" by simp
    have inv: "identity (?ds' ! i) \<le> identity (?ds' ! m)" if "i < m" "m < j + 1" for m
    proof (cases "sortsAfter (ds ! i) (ds ! j)")
      case swap: True
      then have lt: "identity (ds ! j) < identity (ds ! i)" by (simp add: sortsAfter_iff)
      have i': "?ds' ! i = ds ! j" using swap True "1.prems"(1) by simp
      show ?thesis
      proof (cases "m = j")
        case True
        then have "?ds' ! m = ds ! i" using swap \<open>j < length ds\<close> by simp
        with i' lt show ?thesis by simp
      next
        case False
        with that have "m < j" by simp
        then have "?ds' ! m = ds ! m" using swap that by simp
        moreover have "identity (ds ! i) \<le> identity (ds ! m)"
          using "1.prems"(2) that(1) \<open>m < j\<close> by blast
        ultimately show ?thesis using i' lt by simp
      qed
    next
      case noswap: False
      then have le: "identity (ds ! i) \<le> identity (ds ! j)" by (simp add: sortsAfter_iff)
      show ?thesis
      proof (cases "m = j")
        case True
        with noswap le show ?thesis by simp
      next
        case False
        with that have "m < j" by simp
        then show ?thesis using noswap "1.prems"(2) that(1) by simp
      qed
    qed
    have "identity (sortInner i (j + 1) ?ds' ! i) \<le> identity (sortInner i (j + 1) ?ds' ! k)"
    proof (rule "1.IH" [OF True])
      show "i < j + 1" using "1.prems"(1) by simp
      show "identity (?ds' ! i) \<le> identity (?ds' ! m)" if "i < m" "m < j + 1" for m
        using that by (rule inv)
      show "i < k" by (rule "1.prems"(3))
      show "k < length ?ds'" using "1.prems"(4) len by simp
    qed
    then show ?thesis by (simp only: unfold)
  next
    case False
    then have "sortInner i j ds = ds" by (subst sortInner.simps) simp
    moreover have "k < j" using False "1.prems"(4) by simp
    ultimately show ?thesis using "1.prems"(2,3) by simp
  qed
qed

lemma set_drop_sortInner:
  assumes "i < j"
  shows "set (drop i (sortInner i j ds)) = set (drop i ds)"
proof -
  have "mset (take i (sortInner i j ds)) + mset (drop i (sortInner i j ds)) =
        mset (take i ds) + mset (drop i ds)"
    using mset_sortInner [OF assms, of ds] by (simp flip: mset_append)
  then have "mset (drop i (sortInner i j ds)) = mset (drop i ds)"
    by (simp add: take_sortInner [OF assms])
  then show ?thesis by (rule mset_eq_setD)
qed

lemma placed_step:
  assumes inv: "placed i ds" and less: "i < length ds"
  shows "placed (i + 1) (sortInner i (i + 1) ds)"
  unfolding placed_def
proof (intro allI impI)
  fix a b
  let ?ds' = "sortInner i (i + 1) ds"
  assume ab: "a < i + 1 \<and> a < b \<and> b < length ?ds'"
  then have b: "b < length ds" by (simp add: length_sortInner)
  show "identity (?ds' ! a) \<le> identity (?ds' ! b)"
  proof (cases "a = i")
    case True
    then show ?thesis using least_sortInner [of i "i + 1" ds b] ab b by simp
  next
    case False
    with ab have a: "a < i" by simp
    have "?ds' ! a = take i ?ds' ! a" using a by simp
    also have "\<dots> = ds ! a" using a by (simp add: take_sortInner)
    finally have a': "?ds' ! a = ds ! a" .
    show ?thesis
    proof (cases "b < i")
      case True
      have "?ds' ! b = take i ?ds' ! b" using True by simp
      also have "\<dots> = ds ! b" using True by (simp add: take_sortInner)
      finally show ?thesis using a' inv a ab b unfolding placed_def by simp
    next
      case False
      then have "?ds' ! b = drop i ?ds' ! (b - i)" using b by (simp add: length_sortInner)
      moreover have "b - i < length (drop i ?ds')" using False b by (simp add: length_sortInner)
      ultimately have "?ds' ! b \<in> set (drop i ?ds')" by (metis nth_mem)
      then have "?ds' ! b \<in> set (drop i ds)" by (simp add: set_drop_sortInner)
      then obtain m where m: "m < length (drop i ds)" "drop i ds ! m = ?ds' ! b"
        by (auto simp: in_set_conv_nth)
      then have "ds ! (i + m) = ?ds' ! b" "i + m < length ds" by simp_all
      moreover have "identity (ds ! a) \<le> identity (ds ! (i + m))"
        using inv a \<open>i + m < length ds\<close> unfolding placed_def by simp
      ultimately show ?thesis using a' by simp
    qed
  qed
qed

lemma length_sortOuter: "length (sortOuter i ds) = length ds"
proof (induction i ds rule: sortOuter.induct)
  case (1 i ds)
  show ?case
  proof (cases "i < length ds")
    case True
    then show ?thesis using "1.IH" by (subst sortOuter.simps) (simp add: length_sortInner)
  next
    case False
    then show ?thesis by (subst sortOuter.simps) simp
  qed
qed

lemma mset_sortOuter: "mset (sortOuter i ds) = mset ds"
proof (induction i ds rule: sortOuter.induct)
  case (1 i ds)
  show ?case
  proof (cases "i < length ds")
    case True
    then show ?thesis using "1.IH" by (subst sortOuter.simps) (simp add: mset_sortInner)
  next
    case False
    then show ?thesis by (subst sortOuter.simps) simp
  qed
qed

lemma placed_sortOuter: "placed i ds \<Longrightarrow> placed (length ds) (sortOuter i ds)"
proof (induction i ds rule: sortOuter.induct)
  case (1 i ds)
  show ?case
  proof (cases "i < length ds")
    case True
    have "placed (i + 1) (sortInner i (i + 1) ds)"
      using "1.prems" True by (rule placed_step)
    then have "placed (length (sortInner i (i + 1) ds)) (sortOuter (i + 1) (sortInner i (i + 1) ds))"
      by (rule "1.IH" [OF True])
    then show ?thesis using True by (subst sortOuter.simps) (simp add: length_sortInner)
  next
    case False
    then have "sortOuter i ds = ds" by (subst sortOuter.simps) simp
    moreover have "placed (length ds) ds" using "1.prems" False unfolding placed_def by simp
    ultimately show ?thesis by simp
  qed
qed

lemma mset_sortDevices: "mset (sortDevices ds) = mset ds"
  by (simp add: sortDevices_def mset_sortOuter)

lemma sorted_sortDevices: "sorted (map identity (sortDevices ds))"
proof -
  have "placed 0 ds" by (simp add: placed_def)
  then have "placed (length ds) (sortOuter 0 ds)" by (rule placed_sortOuter)
  then show ?thesis
    unfolding sortDevices_def placed_def
    by (simp add: sorted_iff_nth_mono_less length_sortOuter)
qed

section \<open>Properties of the device store\<close>

lemma keysAgree_New: "keysAgree NewDeviceStore"
  by (simp add: keysAgree_def NewDeviceStore_def)

lemma keysAgree_Add: "keysAgree s \<Longrightarrow> keysAgree (Add s device now)"
  by (auto simp: keysAgree_def Add_def Let_def)

lemma keysAgree_Clear: "keysAgree (DeviceStore_Clear s)"
  by (simp add: keysAgree_def DeviceStore_Clear_def)

lemma keysAgree_storeCalls: "keysAgree s \<Longrightarrow> keysAgree (storeCalls s calls)"
  by (induction s calls rule: storeCalls.induct) (simp_all add: keysAgree_Add keysAgree_Clear)

lemma keysAgree_inj:
  assumes "keysAgree s"
  shows "inj_on identity (ran (devices s))"
proof (rule inj_onI)
  fix d e
  assume "d \<in> ran (devices s)" "e \<in> ran (devices s)" and same: "identity d = identity e"
  then obtain k m where k: "devices s k = Some d" and m: "devices s m = Some e"
    by (auto simp: ran_def)
  with assms have "k = makeKey (DeviceName d) (OutletNumber d)"
    "m = makeKey (DeviceName e) (OutletNumber e)"
    by (auto simp: keysAgree_def)
  with same have "k = m" by (simp add: identity_def)
  with k m show "d = e" by simp
qed

lemma mset_map_filter:
  "mset (List.map_filter f xs) = image_mset (\<lambda>x. the (f x)) (filter_mset (\<lambda>x. f x \<noteq> None) (mset xs))"
  by (induction xs) (auto simp: List.map_filter_simps split: option.splits)

lemma set_map_filter: "set (List.map_filter f xs) = {y. \<exists>x \<in> set xs. f x = Some y}"
  by (induction xs) (auto simp: List.map_filter_simps split: option.splits)

lemma set_map_filter_range:
  assumes "rangeOrder s order"
  shows "set (List.map_filter (devices s) order) = ran (devices s)"
  using assms by (auto simp: rangeOrder_def set_map_filter ran_def dom_def)

lemma mset_map_filter_range:
  assumes "rangeOrder s order" and "rangeOrder s order'"
  shows "mset (List.map_filter (devices s) order) = mset (List.map_filter (devices s) order')"
proof -
  from assms have "distinct order" "distinct order'" "set order = set order'"
    by (simp_all add: rangeOrder_def)
  then have "mset order = mset order'"
    by (simp add: set_eq_iff_mset_eq_distinct)
  then show ?thesis by (simp add: mset_map_filter)
qed

lemma sorted_by_identity_unique:
  assumes "sorted (map identity xs)" and "sorted (map identity ys)"
    and "mset xs = mset ys" and "inj_on identity (set xs)"
  shows "xs = ys"
proof -
  have "mset (map identity xs) = mset (map identity ys)" using assms(3) by simp
  then have "sort (map identity ys) = map identity xs"
    using assms(1) by (rule properties_for_sort)
  moreover have "sort (map identity ys) = map identity ys"
    using assms(2) by (simp add: sort_key_id_if_sorted)
  ultimately have "map identity xs = map identity ys" by simp
  moreover have "set ys = set xs" using assms(3) by (metis mset_eq_setD)
  ultimately show ?thesis using assms(4) by (simp add: inj_on_map_eq_map)
qed

lemma set_sortDevices: "set (sortDevices ds) = set ds"
  using mset_sortDevices [of ds] by (rule mset_eq_setD)

lemma filterTest_matchesFold:
  "filterTest uni (ToLower uni searchText) = matchesFold uni searchText"
  by (rule ext) (simp add: filterTest_def matchesFold_def containsFold_def)

lemma GetAll_props:
  assumes agree: "keysAgree s" and ro: "rangeOrder s order" and ro': "rangeOrder s order'"
  shows "Filter uni s [] order = DeviceStore_GetAll s order"
    and "searchText \<noteq> [] \<Longrightarrow> Filter uni s searchText order =
          filter (matchesFold uni searchText) (DeviceStore_GetAll s order')"
    and "DeviceStore_GetAll s order = DeviceStore_GetAll s order'"
    and "set (DeviceStore_GetAll s order) = ran (devices s)"
    and "sorted (map identity (DeviceStore_GetAll s order))"
    and "distinct (map identity (DeviceStore_GetAll s order))"
proof -
  let ?vs = "List.map_filter (devices s) order" and ?vs' = "List.map_filter (devices s) order'"
  have inj: "inj_on identity (ran (devices s))" using agree by (rule keysAgree_inj)
  have sets: "set ?vs = ran (devices s)" "set ?vs' = ran (devices s)"
    using ro ro' by (simp_all add: set_map_filter_range)
  have msets: "mset ?vs = mset ?vs'" using ro ro' by (rule mset_map_filter_range)
  show "Filter uni s [] order = DeviceStore_GetAll s order" by (simp add: Filter_def)
  show all: "DeviceStore_GetAll s order = DeviceStore_GetAll s order'"
    unfolding DeviceStore_GetAll_def
  proof (rule sorted_by_identity_unique)
    show "sorted (map identity (sortDevices ?vs))" by (rule sorted_sortDevices)
    show "sorted (map identity (sortDevices ?vs'))" by (rule sorted_sortDevices)
    show "mset (sortDevices ?vs) = mset (sortDevices ?vs')" by (simp add: mset_sortDevices msets)
    show "inj_on identity (set (sortDevices ?vs))" using inj by (simp add: set_sortDevices sets)
  qed
  show "set (DeviceStore_GetAll s order) = ran (devices s)"
    by (simp add: DeviceStore_GetAll_def set_sortDevices sets)
  show srt: "sorted (map identity (DeviceStore_GetAll s order))"
    by (simp add: DeviceStore_GetAll_def sorted_sortDevices)
  have "distinct order" using ro by (simp add: rangeOrder_def)
  then have "distinct ?vs"
  proof (induction order)
    case Nil
    then show ?case by (simp add: List.map_filter_simps)
  next
    case (Cons k ks)
    show ?case
    proof (cases "devices s k")
      case None
      then show ?thesis using Cons by (simp add: List.map_filter_simps)
    next
      case (Some d)
      have "d \<notin> set (List.map_filter (devices s) ks)"
      proof
        assume "d \<in> set (List.map_filter (devices s) ks)"
        then obtain m where "m \<in> set ks" "devices s m = Some d" by (auto simp: set_map_filter)
        with agree Some have "m = k" by (auto simp: keysAgree_def)
        with \<open>m \<in> set ks\<close> Cons.prems show False by simp
      qed
      then show ?thesis using Some Cons by (simp add: List.map_filter_simps)
    qed
  qed
  then have "distinct (sortDevices ?vs)"
    using mset_sortDevices [of ?vs] by (metis mset_eq_imp_distinct_iff)
  then show "distinct (map identity (DeviceStore_GetAll s order))"
    using inj by (simp add: DeviceStore_GetAll_def distinct_map set_sortDevices sets)
  show "Filter uni s searchText order =
          filter (matchesFold uni searchText) (DeviceStore_GetAll s order')"
    if "searchText \<noteq> []"
  proof -
    let ?P = "matchesFold uni searchText"
    have "Filter uni s searchText order = sortDevices (filter ?P ?vs)"
      using that by (simp add: Filter_def Let_def filterTest_matchesFold)
    also have "\<dots> = filter ?P (sortDevices ?vs')"
    proof (rule sorted_by_identity_unique)
      show "sorted (map identity (sortDevices (filter ?P ?vs)))" by (rule sorted_sortDevices)
      show "sorted (map identity (filter ?P (sortDevices ?vs')))"
        using sorted_sortDevices [of ?vs'] by (rule sorted_filter)
      show "mset (sortDevices (filter ?P ?vs)) = mset (filter ?P (sortDevices ?vs'))"
        by (simp add: mset_sortDevices msets)
      show "inj_on identity (set (sortDevices (filter ?P ?vs)))"
        using inj by (auto simp: set_sortDevices sets inj_on_def)
    qed
    finally show ?thesis by (simp add: DeviceStore_GetAll_def)
  qed
qed

text \<open>
  C8. Take any store the program can build and any two orders in which the runtime may
  visit its keys. \<open>Filter\<close> with the empty text returns what \<open>GetAll\<close> returns. With a
  non-empty text it returns exactly the outlets of \<open>GetAll\<close> whose name, number or state
  contains the text without regard to case, in the order \<open>GetAll\<close> has them. \<open>GetAll\<close>
  returns the outlets of the store, each once, in ascending order of (name, number), and
  its result does not depend on the order of the visit.
\<close>

theorem Filter_agrees_with_GetAll:
  assumes "s = storeCalls NewDeviceStore calls"
    and "rangeOrder s order" and "rangeOrder s order'"
  shows "Filter uni s [] order = DeviceStore_GetAll s order \<and>
         (searchText \<noteq> [] \<longrightarrow>
            Filter uni s searchText order =
              filter (matchesFold uni searchText) (DeviceStore_GetAll s order')) \<and>
         DeviceStore_GetAll s order = DeviceStore_GetAll s order' \<and>
         set (DeviceStore_GetAll s order) = ran (devices s) \<and>
         sorted (map identity (DeviceStore_GetAll s order)) \<and>
         distinct (map identity (DeviceStore_GetAll s order))"
proof -
  have agree: "keysAgree s"
    unfolding assms(1) using keysAgree_New by (rule keysAgree_storeCalls)
  show ?thesis
    using GetAll_props [OF agree assms(2) assms(3)] by blast
qed

text \<open>
  The theorem at the store of the three example calls, visited in two different orders,
  and the search text \<^verbatim>\<open>STRIP\<close>.
\<close>

theorem Filter_agrees_with_GetAll_witness:
  "rangeOrder (storeCalls NewDeviceStore exampleCalls) [''office-strip:2'', ''Lab:7'', ''office-strip:1''] \<and>
   rangeOrder (storeCalls NewDeviceStore exampleCalls) [''office-strip:1'', ''office-strip:2'', ''Lab:7''] \<and>
   Filter id (storeCalls NewDeviceStore exampleCalls) [] [''office-strip:2'', ''Lab:7'', ''office-strip:1''] =
     DeviceStore_GetAll (storeCalls NewDeviceStore exampleCalls) [''office-strip:2'', ''Lab:7'', ''office-strip:1''] \<and>
   Filter id (storeCalls NewDeviceStore exampleCalls) ''STRIP'' [''office-strip:2'', ''Lab:7'', ''office-strip:1''] =
     filter (matchesFold id ''STRIP'')
       (DeviceStore_GetAll (storeCalls NewDeviceStore exampleCalls) [''office-strip:1'', ''office-strip:2'', ''Lab:7'']) \<and>
   DeviceStore_GetAll (storeCalls NewDeviceStore exampleCalls) [''office-strip:1'', ''office-strip:2'', ''Lab:7''] =
     [\<lparr>DeviceName = ''Lab'', OutletNumber = ''7'', Status = ''OFF'', LastUpdate = 30\<rparr>,
      \<lparr>DeviceName = ''office-strip'', OutletNumber = ''1'', Status = ''ON'', LastUpdate = 20\<rparr>,
      \<lparr>DeviceName = ''office-strip'', OutletNumber = ''2'', Status = ''OFF'', LastUpdate = 10\<rparr>] \<and>
   Filter id (storeCalls NewDeviceStore exampleCalls) ''STRIP'' [''office-strip:2'', ''Lab:7'', ''office-strip:1''] =
     [\<lparr>DeviceName = ''office-strip'', OutletNumber = ''1'', Status = ''ON'', LastUpdate = 20\<rparr>,
      \<lparr>DeviceName = ''office-strip'', OutletNumber = ''2'', Status = ''OFF'', LastUpdate = 10\<rparr>]"
proof -
  let ?s = "storeCalls NewDeviceStore exampleCalls"
  have r1: "rangeOrder ?s [''office-strip:2'', ''Lab:7'', ''office-strip:1'']"
    by (auto simp: rangeOrder_def exampleCalls_def NewDeviceStore_def Add_def makeKey_def Let_def)
  have r2: "rangeOrder ?s [''office-strip:1'', ''office-strip:2'', ''Lab:7'']"
    by (auto simp: rangeOrder_def exampleCalls_def NewDeviceStore_def Add_def makeKey_def Let_def)
  note T = Filter_agrees_with_GetAll [OF refl r1 r2, of id "''STRIP''"]
  have a: "Filter id ?s [] [''office-strip:2'', ''Lab:7'', ''office-strip:1''] =
      DeviceStore_GetAll ?s [''office-strip:2'', ''Lab:7'', ''office-strip:1'']"
    by (rule T [THEN conjunct1])
  have "''STRIP'' \<noteq> []" by simp
  with T [THEN conjunct2, THEN conjunct1]
  have b: "Filter id ?s ''STRIP'' [''office-strip:2'', ''Lab:7'', ''office-strip:1''] =
      filter (matchesFold id ''STRIP'')
        (DeviceStore_GetAll ?s [''office-strip:1'', ''office-strip:2'', ''Lab:7''])"
    by (rule mp)
  have c: "DeviceStore_GetAll ?s [''office-strip:1'', ''office-strip:2'', ''Lab:7''] =
     [\<lparr>DeviceName = ''Lab'', OutletNumber = ''7'', Status = ''OFF'', LastUpdate = 30\<rparr>,
      \<lparr>DeviceName = ''office-strip'', OutletNumber = ''1'', Status = ''ON'', LastUpdate = 20\<rparr>,
      \<lparr>DeviceName = ''office-strip'', OutletNumber = ''2'', Status = ''OFF'', LastUpdate = 10\<rparr>]"
    by code_simp
  have d: "Filter id ?s ''STRIP'' [''office-strip:2'', ''Lab:7'', ''office-strip:1''] =
     [\<lparr>DeviceName = ''office-strip'', OutletNumber = ''1'', Status = ''ON'', LastUpdate = 20\<rparr>,
      \<lparr>DeviceName = ''office-strip'', OutletNumber = ''2'', Status = ''OFF'', LastUpdate = 10\<rparr>]"
    by code_simp
  from r1 r2 a b c d show ?thesis by (intro conjI)
qed

text \<open>
  C9. The identities (\<^verbatim>\<open>a:1\<close>, \<^verbatim>\<open>2\<close>) and (\<^verbatim>\<open>a\<close>, \<^verbatim>\<open>1:2\<close>) differ and have the same
  key. Adding an outlet of the second after one of the first leaves the store as if the
  first had never been added, and a lookup of the first identity then returns the outlet
  of the second. No store the program can build holds an outlet of each.
\<close>

theorem makeKey_collision:
  "makeKey ''a:1'' ''2'' = makeKey ''a'' ''1:2'' \<and>
   (''a:1'', ''2'') \<noteq> (''a'', ''1:2'') \<and>
   Add (Add s \<lparr>DeviceName = ''a:1'', OutletNumber = ''2'', Status = st, LastUpdate = u\<rparr> t)
       \<lparr>DeviceName = ''a'', OutletNumber = ''1:2'', Status = st', LastUpdate = u'\<rparr> t' =
     Add s \<lparr>DeviceName = ''a'', OutletNumber = ''1:2'', Status = st', LastUpdate = u'\<rparr> t' \<and>
   Get (Add (Add s \<lparr>DeviceName = ''a:1'', OutletNumber = ''2'', Status = st, LastUpdate = u\<rparr> t)
            \<lparr>DeviceName = ''a'', OutletNumber = ''1:2'', Status = st', LastUpdate = u'\<rparr> t')
       ''a:1'' ''2'' =
     (\<lparr>DeviceName = ''a'', OutletNumber = ''1:2'', Status = st', LastUpdate = t'\<rparr>, True) \<and>
   \<not> (\<exists>k m d e. devices (storeCalls NewDeviceStore calls) k = Some d \<and>
                 devices (storeCalls NewDeviceStore calls) m = Some e \<and>
                 identity d = (''a:1'', ''2'') \<and> identity e = (''a'', ''1:2''))"
proof -
  have key: "makeKey ''a:1'' ''2'' = makeKey ''a'' ''1:2''" by (simp add: makeKey_def)
  have "\<not> (\<exists>k m d e. devices (storeCalls NewDeviceStore calls) k = Some d \<and>
                 devices (storeCalls NewDeviceStore calls) m = Some e \<and>
                 identity d = (''a:1'', ''2'') \<and> identity e = (''a'', ''1:2''))"
  proof
    assume "\<exists>k m d e. devices (storeCalls NewDeviceStore calls) k = Some d \<and>
                 devices (storeCalls NewDeviceStore calls) m = Some e \<and>
                 identity d = (''a:1'', ''2'') \<and> identity e = (''a'', ''1:2'')"
    then obtain k m d e where k: "devices (storeCalls NewDeviceStore calls) k = Some d"
      and m: "devices (storeCalls NewDeviceStore calls) m = Some e"
      and d: "identity d = (''a:1'', ''2'')" and e: "identity e = (''a'', ''1:2'')"
      by blast
    have "keysAgree (storeCalls NewDeviceStore calls)"
      using keysAgree_New by (rule keysAgree_storeCalls)
    with k m have "k = makeKey (DeviceName d) (OutletNumber d)"
      "m = makeKey (DeviceName e) (OutletNumber e)"
      by (auto simp: keysAgree_def)
    with d e key have "k = m" by (simp add: identity_def)
    with k m have "d = e" by simp
    with d e show False by simp
  qed
  then show ?thesis
    by (simp add: Add_def Get_def makeKey_def Let_def)
qed

text \<open>The theorem at the empty store.\<close>

theorem makeKey_collision_witness:
  "makeKey ''a:1'' ''2'' = makeKey ''a'' ''1:2'' \<and>
   Get (Add (Add NewDeviceStore
               \<lparr>DeviceName = ''a:1'', OutletNumber = ''2'', Status = ''ON'', LastUpdate = 0\<rparr> 10)
            \<lparr>DeviceName = ''a'', OutletNumber = ''1:2'', Status = ''OFF'', LastUpdate = 0\<rparr> 20)
       ''a:1'' ''2'' =
     (\<lparr>DeviceName = ''a'', OutletNumber = ''1:2'', Status = ''OFF'', LastUpdate = 20\<rparr>, True)"
  using makeKey_collision [of NewDeviceStore "''ON''" 0 10 "''OFF''" 0 20 "[]"]
  by blast

section \<open>Properties of the coordinator\<close>

lemma Publish_not_connected:
  "\<not> connected c \<Longrightarrow>
   Publish w c topic payload = Some (if client c then NotConnected else ClientNotInitialized)"
  by (simp add: Publish_def)

lemma SendCommand_failure_keeps_state:
  "SendCommand uni w a deviceName outletNumber state now = Inr (Some err, a') \<Longrightarrow> a' = a"
  by (auto simp: SendCommand_def Let_def split: option.splits sum.splits)

text \<open>
  C2 (amended). While the flag \<^verbatim>\<open>connected\<close> is down, \<open>Publish\<close> returns an error
  whatever the broker would answer: the error \<^verbatim>\<open>not connected to broker\<close> when a session
  handle exists, the error \<^verbatim>\<open>client not initialized\<close> when \<open>Connect\<close> has never set one.
  \<open>SendCommand\<close> then returns that error, wrapped, and leaves the coordinator as it was:
  nothing is appended to the message log and no event is emitted. Whenever \<open>SendCommand\<close>
  returns an error the coordinator is as it was.
\<close>

theorem publish_while_disconnected:
  assumes "\<not> connected (mqttClient a)"
  shows "Publish w (mqttClient a) topic payload =
           Some (if client (mqttClient a) then NotConnected else ClientNotInitialized) \<and>
         SendCommand uni w a deviceName outletNumber state now =
           Inr (Some (FailedToSendCommand
                  (if client (mqttClient a) then NotConnected else ClientNotInitialized)), a) \<and>
         (\<forall>w' err a'. SendCommand uni w' a deviceName outletNumber state now = Inr (Some err, a')
            \<longrightarrow> messageLog a' = messageLog a \<and> a' = a)"
proof (intro conjI allI impI)
  show "Publish w (mqttClient a) topic payload =
      Some (if client (mqttClient a) then NotConnected else ClientNotInitialized)"
    using assms by (rule Publish_not_connected)
  show "SendCommand uni w a deviceName outletNumber state now =
      Inr (Some (FailedToSendCommand
             (if client (mqttClient a) then NotConnected else ClientNotInitialized)), a)"
    using assms by (simp add: SendCommand_def Let_def Publish_not_connected)
next
  fix w' err a'
  assume "SendCommand uni w' a deviceName outletNumber state now = Inr (Some err, a')"
  then show "a' = a" by (rule SendCommand_failure_keeps_state)
  then show "messageLog a' = messageLog a" by simp
qed

text \<open>The theorem at a coordinator whose session handle is set and whose flag is down.\<close>

theorem publish_while_disconnected_witness:
  "\<not> connected (mqttClient droppedApp) \<and>
   Publish exampleWorld (mqttClient droppedApp) ''power/office-strip/outlets/1/set'' ''1'' =
     Some NotConnected \<and>
   SendCommand id exampleWorld droppedApp ''office-strip'' ''1'' ''on'' 10 =
     Inr (Some (FailedToSendCommand NotConnected), droppedApp)"
  using publish_while_disconnected [of droppedApp exampleWorld
      "''power/office-strip/outlets/1/set''" "''1''" id "''office-strip''" "''1''" "''on''" 10]
  by (simp add: droppedApp_def)

text \<open>
  C2 as stated fails: a client fresh from \<open>NewClient\<close> is disconnected, and \<open>Publish\<close>
  on it returns the error \<^verbatim>\<open>client not initialized\<close>, not \<^verbatim>\<open>not connected to broker\<close>.
\<close>

theorem publish_before_first_connect:
  "\<not> connected NewClient \<and>
   Publish exampleWorld NewClient ''power/office-strip/outlets/1/set'' ''1'' = Some ClientNotInitialized \<and>
   Publish exampleWorld NewClient ''power/office-strip/outlets/1/set'' ''1'' \<noteq> Some NotConnected"
  by (simp add: Publish_def NewClient_def)

text \<open>
  C6. When the topic of an inbound message does not decode, the handler does not panic,
  puts one entry for the message, marked as received, at the head of the message log
  (cutting the log off behind its capacity), emits the one event for that entry, and
  leaves the device store, the client and the configuration as they were. The capacity
  of the log is positive, as the constructor makes it.
\<close>

theorem malformed_topic_logged_only:
  assumes "ParseTopic topic = Inl err" and "0 < maxSize (messageLog a)"
  shows "\<exists>a'. handleMQTTMessage a topic payload logTime storeTime = Inr a' \<and>
           deviceStore a' = deviceStore a \<and>
           mqttClient a' = mqttClient a \<and>
           config a' = config a \<and>
           emitted a' = emitted a @ [MessageNew ''Recv'' topic payload] \<and>
           maxSize (messageLog a') = maxSize (messageLog a) \<and>
           messages (messageLog a') =
             take (nat (maxSize (messageLog a)))
               (\<lparr>Direction = MessageReceived, Topic = topic, Payload = payload,
                 Timestamp = logTime\<rparr> # messages (messageLog a)) \<and>
           hd (messages (messageLog a')) =
             \<lparr>Direction = MessageReceived, Topic = topic, Payload = payload, Timestamp = logTime\<rparr> \<and>
           length (messages (messageLog a')) =
             min (length (messages (messageLog a)) + 1) (nat (maxSize (messageLog a)))"
proof -
  let ?msg = "\<lparr>Direction = MessageReceived, Topic = topic, Payload = payload, Timestamp = logTime\<rparr>"
  let ?l = "(messageLog a)\<lparr>messages := take (nat (maxSize (messageLog a))) (?msg # messages (messageLog a))\<rparr>"
  let ?a = "a\<lparr>messageLog := ?l, emitted := emitted a @ [MessageNew ''Recv'' topic payload]\<rparr>"
  have "AddMessage (messageLog a) MessageReceived topic payload logTime = Inr ?l"
    using assms(2) by (simp add: AddMessage_ok)
  then have run: "handleMQTTMessage a topic payload logTime storeTime = Inr ?a"
    using assms(1) by (simp add: handleMQTTMessage_def Let_def)
  obtain n where n: "nat (maxSize (messageLog a)) = Suc n"
    using assms(2) by (cases "nat (maxSize (messageLog a))") simp_all
  have "hd (messages (messageLog ?a)) = ?msg" by (simp add: n)
  moreover have "length (messages (messageLog ?a)) =
      min (length (messages (messageLog a)) + 1) (nat (maxSize (messageLog a)))"
    by simp
  ultimately show ?thesis using run by simp
qed

text \<open>
  The theorem at the topic \<^verbatim>\<open>power/office-strip/1\<close>, which lacks the segment
  \<^verbatim>\<open>outlets\<close>, on the example coordinator.
\<close>

theorem malformed_topic_logged_only_witness:
  "ParseTopic ''power/office-strip/1'' = Inl (InvalidTopicFormat ''power/office-strip/1'') \<and>
   0 < maxSize (messageLog exampleApp) \<and>
   (\<exists>a'. handleMQTTMessage exampleApp ''power/office-strip/1'' ''1'' 40 41 = Inr a' \<and>
      deviceStore a' = deviceStore exampleApp \<and>
      messages (messageLog a') =
        [\<lparr>Direction = ''Recv'', Topic = ''power/office-strip/1'', Payload = ''1'', Timestamp = 40\<rparr>])"
proof -
  have p: "ParseTopic ''power/office-strip/1'' = Inl (InvalidTopicFormat ''power/office-strip/1'')"
    by code_simp
  have m: "0 < maxSize (messageLog exampleApp)"
    by (simp add: exampleApp_def NewApp_def NewMessageLog_maxSize)
  have mv: "maxSize (messageLog exampleApp) = 1000"
    by (simp add: exampleApp_def NewApp_def NewMessageLog_maxSize)
  have e: "messages (messageLog exampleApp) = []"
    by (simp add: exampleApp_def NewApp_def NewMessageLog_messages)
  from malformed_topic_logged_only [OF p m, of "''1''" 40 41]
  obtain a' where h1: "handleMQTTMessage exampleApp ''power/office-strip/1'' ''1'' 40 41 = Inr a'"
    and h2: "deviceStore a' = deviceStore exampleApp"
    and h3: "messages (messageLog a') =
      take (nat (maxSize (messageLog exampleApp)))
        (\<lparr>Direction = MessageReceived, Topic = ''power/office-strip/1'', Payload = ''1'',
          Timestamp = 40\<rparr> # messages (messageLog exampleApp))"
    by blast
  have "take (nat (maxSize (messageLog exampleApp)))
        (\<lparr>Direction = MessageReceived, Topic = ''power/office-strip/1'', Payload = ''1'',
          Timestamp = 40\<rparr> # messages (messageLog exampleApp)) =
      [\<lparr>Direction = ''Recv'', Topic = ''power/office-strip/1'', Payload = ''1'', Timestamp = 40\<rparr>]"
    by (simp add: e mv MessageReceived_def)
  with h3 have h4: "messages (messageLog a') =
      [\<lparr>Direction = ''Recv'', Topic = ''power/office-strip/1'', Payload = ''1'', Timestamp = 40\<rparr>]"
    by (rule trans)
  have "\<exists>a'. handleMQTTMessage exampleApp ''power/office-strip/1'' ''1'' 40 41 = Inr a' \<and>
      deviceStore a' = deviceStore exampleApp \<and>
      messages (messageLog a') =
        [\<lparr>Direction = ''Recv'', Topic = ''power/office-strip/1'', Payload = ''1'', Timestamp = 40\<rparr>]"
  proof (rule exI [of _ a'], intro conjI)
    show "handleMQTTMessage exampleApp ''power/office-strip/1'' ''1'' 40 41 = Inr a'" by (rule h1)
    show "deviceStore a' = deviceStore exampleApp" by (rule h2)
    show "messages (messageLog a') =
        [\<lparr>Direction = ''Recv'', Topic = ''power/office-strip/1'', Payload = ''1'', Timestamp = 40\<rparr>]"
      by (rule h4)
  qed
  with p m show ?thesis by (intro conjI)
qed







end
